theory Spec2Isabelle
  imports Main
begin

section \<open>The game engine of script.js\<close>

text \<open>
  The engine of the falling-block game keeps four module-level variables: the board
  \<open>grid\<close>, the falling piece \<open>fallingPieceObj\<close> (or \<open>null\<close>), the \<open>score\<close> and the
  flag \<open>isGameRunning\<close>, together with the handle \<open>gameInterval\<close> of the periodic tick.
  Each function of the script that touches them is translated below into a function on an
  explicit state record. Rendering and the score display only read the state and are left
  out. The same engine occurs in all three script files of the repository.
\<close>

subsection \<open>Values, arrays and errors\<close>

text \<open>
  An array element is a number or, where an index has never been written, \<open>undefined\<close>.
  All numbers of the engine are small integers. The only exception the engine can raise
  is the \<open>TypeError\<close> of reading or writing a property of \<open>null\<close> or \<open>undefined\<close>.
\<close>

datatype jsval = Undefined | Num int

datatype error = TypeError

type_synonym matrix = "jsval list list"

text \<open>Reading \<open>row[k]\<close> for a non-negative index: beyond the end the value is \<open>undefined\<close>.\<close>

definition js_get :: "jsval list \<Rightarrow> nat \<Rightarrow> jsval" where
  "js_get row k = (if k < length row then row ! k else Undefined)"

text \<open>The comparison \<open>v > 0\<close>; it is false for \<open>undefined\<close>.\<close>

fun js_gt0 :: "jsval \<Rightarrow> bool" where
  "js_gt0 Undefined = False"
| "js_gt0 (Num n) = (0 < n)"

definition ROWS :: nat where
  "ROWS = 20"

definition COLS :: nat where
  "COLS = 10"

definition nums :: "int list list \<Rightarrow> matrix" where
  "nums m = map (map Num) m"

definition SHAPES :: "matrix list" where
  "SHAPES =
    [nums [[0, 1, 0, 0],
           [0, 1, 0, 0],
           [0, 1, 0, 0],
           [0, 1, 0, 0]],
     nums [[0, 1, 0],
           [0, 1, 0],
           [1, 1, 0]],
     nums [[0, 1, 0],
           [0, 1, 0],
           [0, 1, 1]],
     nums [[1, 1, 0],
           [0, 1, 1],
           [0, 0, 0]],
     nums [[0, 1, 1],
           [1, 1, 0],
           [0, 0, 0]],
     nums [[1, 1, 1],
           [0, 1, 0],
           [0, 0, 0]],
     nums [[1, 1],
           [1, 1]]]"

subsection \<open>The state\<close>

text \<open>
  The fields \<open>px\<close> and \<open>py\<close> are the \<open>x\<close> and \<open>y\<close> of the script's piece object: the
  column and the row of the origin of the shape matrix.
\<close>

record fallingPiece =
  piece :: matrix
  colorIndex :: int
  px :: int
  py :: int

text \<open>
  \<open>gameInterval\<close> tells whether the interval stored in the script's variable of that name
  is scheduled. \<open>gameOverPrompts\<close> counts the game-over prompts that \<open>moveDown\<close> has
  scheduled with \<open>setTimeout\<close>; a prompt that is accepted calls \<open>restartGame\<close>.
\<close>

record game =
  grid :: matrix
  fallingPieceObj :: "fallingPiece option"
  score :: int
  gameInterval :: bool
  isGameRunning :: bool
  gameOverPrompts :: nat

subsection \<open>generateGrid, startGame, restartGame\<close>

definition generateGrid :: matrix where
  "generateGrid = replicate ROWS (replicate COLS (Num 0))"

definition startGame :: "game \<Rightarrow> game" where
  "startGame s =
     (if \<not> isGameRunning s then s\<lparr>isGameRunning := True, gameInterval := True\<rparr> else s)"

definition restartGame :: "game \<Rightarrow> game" where
  "restartGame s =
     startGame (s\<lparr>gameInterval := False, grid := generateGrid, fallingPieceObj := None,
                 score := 0, isGameRunning := False\<rparr>)"

text \<open>The state once the script has been loaded: its last statement is \<open>startGame()\<close>.\<close>

definition loaded :: game where
  "loaded = startGame \<lparr>grid = generateGrid, fallingPieceObj = None, score = 0,
                        gameInterval = False, isGameRunning = False, gameOverPrompts = 0\<rparr>"

subsection \<open>checkGrid\<close>

text \<open>
  The inner loop of \<open>checkGrid\<close> runs \<open>j\<close> up to \<open>grid[0].length\<close> and clears \<open>allFilled\<close>
  when \<open>grid[i][j] == 0\<close>.
\<close>

definition allFilled :: "matrix \<Rightarrow> nat \<Rightarrow> bool" where
  "allFilled g i = list_all (\<lambda>j. js_get (g ! i) j \<noteq> Num 0) [0..<length (g ! 0)]"

definition emptyRow :: "jsval list" where
  "emptyRow = [Num 0, Num 0, Num 0, Num 0, Num 0, Num 0, Num 0, Num 0, Num 0, Num 0]"

text \<open>
  The outer loop, from index \<open>i\<close> on, with the grid as mutated so far and the running
  \<open>count\<close>: \<open>grid.splice(i, 1)\<close> removes row \<open>i\<close> and \<open>grid.unshift(...)\<close> puts an empty row
  in front; the index then moves on to \<open>i + 1\<close>.
\<close>

function checkGrid_loop :: "nat \<Rightarrow> matrix \<Rightarrow> nat \<Rightarrow> matrix \<times> nat" where
  "checkGrid_loop i g count =
     (if i < length g then
        (if allFilled g i
         then checkGrid_loop (i + 1) (emptyRow # (take i g @ drop (i + 1) g)) (count + 1)
         else checkGrid_loop (i + 1) g count)
      else (g, count))"
  by pat_completeness auto
termination
  by (relation "measure (\<lambda>(i, g, count). length g - i)") auto

declare checkGrid_loop.simps [simp del]

definition checkGrid :: "game \<Rightarrow> game" where
  "checkGrid s =
     (case checkGrid_loop 0 (grid s) 0 of
        (g, count) \<Rightarrow>
          s\<lparr>grid := g,
            score := (if count = 1 then score s + 10
                      else if count = 2 then score s + 30
                      else if count = 3 then score s + 50
                      else if count > 3 then score s + 100
                      else score s)\<rparr>)"

subsection \<open>randomPieceObject\<close>

text \<open>The argument \<open>rnd\<close> is the script's \<open>ran\<close>, the value of \<open>Math.floor(Math.random() * 7)\<close>, one of 0 to 6.\<close>

definition randomPieceObject :: "nat \<Rightarrow> fallingPiece" where
  "randomPieceObject rnd =
     \<lparr>piece = SHAPES ! rnd, colorIndex = int rnd + 1, px = 4, py = 0\<rparr>"

subsection \<open>collision\<close>

text \<open>
  The test made for one filled cell of the piece, at column \<open>p\<close> and row \<open>q\<close>. Inside the
  bounds the script reads \<open>grid[q][p]\<close>, which throws when the grid has no row \<open>q\<close>.
\<close>

definition collision_cell :: "matrix \<Rightarrow> int \<Rightarrow> int \<Rightarrow> error + bool" where
  "collision_cell g p q =
     (if 0 \<le> p \<and> p < int COLS \<and> 0 \<le> q \<and> q < int ROWS then
        (if nat q < length g then Inr (js_gt0 (js_get (g ! nat q) (nat p)))
         else Inl TypeError)
      else Inr True)"

text \<open>
  The loop over \<open>j\<close> for the rest of one row of the piece, and the loop over \<open>i\<close> for the
  rest of its rows. \<open>Inr True\<close> is the script's \<open>return true\<close>.
\<close>

fun collision_cols :: "matrix \<Rightarrow> int \<Rightarrow> int \<Rightarrow> nat \<Rightarrow> jsval list \<Rightarrow> error + bool" where
  "collision_cols g x q j [] = Inr False"
| "collision_cols g x q j (c # cs) =
     (if c = Num 1 then
        (case collision_cell g (x + int j) q of
           Inl e \<Rightarrow> Inl e
         | Inr hit \<Rightarrow> if hit then Inr True else collision_cols g x q (j + 1) cs)
      else collision_cols g x q (j + 1) cs)"

fun collision_rows :: "matrix \<Rightarrow> int \<Rightarrow> int \<Rightarrow> nat \<Rightarrow> matrix \<Rightarrow> error + bool" where
  "collision_rows g x y i [] = Inr False"
| "collision_rows g x y i (r # rs) =
     (case collision_cols g x (y + int i) 0 r of
        Inl e \<Rightarrow> Inl e
      | Inr hit \<Rightarrow> if hit then Inr True else collision_rows g x y (i + 1) rs)"

text \<open>
  \<open>collision(x, y, rotatedPiece)\<close> on the grid \<open>g\<close>; the callers pass the rotated matrix or,
  for the script's default, the matrix of the falling piece. It assigns to nothing, so it
  returns no state.
\<close>

definition collision :: "matrix \<Rightarrow> int \<Rightarrow> int \<Rightarrow> matrix \<Rightarrow> error + bool" where
  "collision g x y pc = collision_rows g x y 0 pc"

subsection \<open>moveDown\<close>

text \<open>
  The assignment \<open>grid[q][p] = c\<close>. It throws when the grid has no row \<open>q\<close>. Past the end of
  the row it lengthens the row, leaving holes that read as \<open>undefined\<close>; at a negative \<open>p\<close>
  it sets a property that is no element of the array, so the elements stay as they are.
\<close>

definition set_cell :: "matrix \<Rightarrow> int \<Rightarrow> int \<Rightarrow> int \<Rightarrow> error + matrix" where
  "set_cell g q p c =
     (if 0 \<le> q \<and> nat q < length g then
        (let row = g ! nat q in
           if p < 0 then Inr g
           else if nat p < length row then Inr (g[nat q := row[nat p := Num c]])
           else Inr (g[nat q := row @ replicate (nat p - length row) Undefined @ [Num c]]))
      else Inl TypeError)"

fun lock_cols :: "matrix \<Rightarrow> int \<Rightarrow> int \<Rightarrow> int \<Rightarrow> nat \<Rightarrow> jsval list \<Rightarrow> error + matrix" where
  "lock_cols g c x q j [] = Inr g"
| "lock_cols g c x q j (v # vs) =
     (if v = Num 1 then
        (case set_cell g q (x + int j) c of
           Inl e \<Rightarrow> Inl e
         | Inr g' \<Rightarrow> lock_cols g' c x q (j + 1) vs)
      else lock_cols g c x q (j + 1) vs)"

fun lock_rows :: "matrix \<Rightarrow> int \<Rightarrow> int \<Rightarrow> int \<Rightarrow> nat \<Rightarrow> matrix \<Rightarrow> error + matrix" where
  "lock_rows g c x y i [] = Inr g"
| "lock_rows g c x y i (r # rs) =
     (case lock_cols g c x (y + int i) 0 r of
        Inl e \<Rightarrow> Inl e
      | Inr g' \<Rightarrow> lock_rows g' c x y (i + 1) rs)"

text \<open>
  \<open>moveDown\<close> reads \<open>fallingPieceObj.x\<close> first, with no test for \<open>null\<close>. When the piece
  cannot go down it is written into the grid; if its \<open>y\<close> is 0 the interval is cleared,
  the running flag is reset and the game-over prompt is scheduled; then the piece is dropped.
\<close>

definition moveDown :: "game \<Rightarrow> error + game" where
  "moveDown s =
     (case fallingPieceObj s of
        None \<Rightarrow> Inl TypeError
      | Some f \<Rightarrow>
          (case collision (grid s) (px f) (py f + 1) (piece f) of
             Inl e \<Rightarrow> Inl e
           | Inr hit \<Rightarrow>
               if \<not> hit then Inr (s\<lparr>fallingPieceObj := Some (f\<lparr>py := py f + 1\<rparr>)\<rparr>)
               else
                 (case lock_rows (grid s) (colorIndex f) (px f) (py f) 0 (piece f) of
                    Inl e \<Rightarrow> Inl e
                  | Inr g \<Rightarrow>
                      if py f = 0
                      then Inr (s\<lparr>grid := g, gameInterval := False, isGameRunning := False,
                                  gameOverPrompts := gameOverPrompts s + 1,
                                  fallingPieceObj := None\<rparr>)
                      else Inr (s\<lparr>grid := g, fallingPieceObj := None\<rparr>))))"

subsection \<open>moveLeft, moveRight\<close>

definition moveLeft :: "game \<Rightarrow> error + game" where
  "moveLeft s =
     (case fallingPieceObj s of
        None \<Rightarrow> Inr s
      | Some f \<Rightarrow>
          (case collision (grid s) (px f - 1) (py f) (piece f) of
             Inl e \<Rightarrow> Inl e
           | Inr hit \<Rightarrow>
               if \<not> hit then Inr (s\<lparr>fallingPieceObj := Some (f\<lparr>px := px f - 1\<rparr>)\<rparr>)
               else Inr s))"

definition moveRight :: "game \<Rightarrow> error + game" where
  "moveRight s =
     (case fallingPieceObj s of
        None \<Rightarrow> Inr s
      | Some f \<Rightarrow>
          (case collision (grid s) (px f + 1) (py f) (piece f) of
             Inl e \<Rightarrow> Inl e
           | Inr hit \<Rightarrow>
               if \<not> hit then Inr (s\<lparr>fallingPieceObj := Some (f\<lparr>px := px f + 1\<rparr>)\<rparr>)
               else Inr s))"

subsection \<open>rotate\<close>

text \<open>
  The script's \<open>rotate\<close> is named \<open>rotate_piece\<close> here. Its local array
  \<open>rotatedPiece\<close> gets the shape of \<open>piece\<close>; its element \<open>[i][j]\<close> becomes \<open>piece[j][i]\<close>
  for every \<open>j\<close> below \<open>piece[i].length\<close>, and then each row is reversed. Reading
  \<open>piece[j][i]\<close> throws when \<open>piece\<close> has no row \<open>j\<close>, which happens as soon as a row is
  longer than the number of rows; it gives \<open>undefined\<close> when row \<open>j\<close> is too short.
\<close>

definition rotatedRow :: "matrix \<Rightarrow> nat \<Rightarrow> jsval list" where
  "rotatedRow pc i = rev (map (\<lambda>j. js_get (pc ! j) i) [0..<length (pc ! i)])"

definition rotated :: "matrix \<Rightarrow> matrix" where
  "rotated pc = map (rotatedRow pc) [0..<length pc]"

definition rotatedPiece :: "matrix \<Rightarrow> error + matrix" where
  "rotatedPiece pc =
     (if list_all (\<lambda>r. length r \<le> length pc) pc then Inr (rotated pc) else Inl TypeError)"

definition rotate_piece :: "game \<Rightarrow> error + game" where
  "rotate_piece s =
     (case fallingPieceObj s of
        None \<Rightarrow> Inr s
      | Some f \<Rightarrow>
          (case rotatedPiece (piece f) of
             Inl e \<Rightarrow> Inl e
           | Inr r \<Rightarrow>
               (case collision (grid s) (px f) (py f) r of
                  Inl e \<Rightarrow> Inl e
                | Inr hit \<Rightarrow>
                    if \<not> hit then Inr (s\<lparr>fallingPieceObj := Some (f\<lparr>piece := r\<rparr>)\<rparr>)
                    else Inr s)))"

subsection \<open>The tick and the key handler\<close>

definition newGameState :: "nat \<Rightarrow> game \<Rightarrow> error + game" where
  "newGameState rnd s =
     (let s1 = checkGrid s;
          s2 = (if fallingPieceObj s1 = None
                then s1\<lparr>fallingPieceObj := Some (randomPieceObject rnd)\<rparr> else s1)
      in moveDown s2)"

datatype key = ArrowDown | ArrowLeft | ArrowRight | ArrowUp | OtherKey

definition keydown :: "key \<Rightarrow> game \<Rightarrow> error + game" where
  "keydown k s =
     (if \<not> isGameRunning s then Inr s
      else (case k of
              ArrowDown \<Rightarrow> moveDown s
            | ArrowLeft \<Rightarrow> moveLeft s
            | ArrowRight \<Rightarrow> moveRight s
            | ArrowUp \<Rightarrow> rotate_piece s
            | OtherKey \<Rightarrow> Inr s))"

text \<open>Calling a handler \<open>n\<close> times in a row, stopping at the first exception.\<close>

fun repeatedly :: "nat \<Rightarrow> (game \<Rightarrow> error + game) \<Rightarrow> game \<Rightarrow> error + game" where
  "repeatedly 0 h s = Inr s"
| "repeatedly (Suc n) h s = (case h s of Inl e \<Rightarrow> Inl e | Inr s' \<Rightarrow> repeatedly n h s')"

text \<open>
  The callback of the interval runs only while the interval is scheduled; \<open>rnd\<close> is the
  random number it draws if it has to spawn a piece.
\<close>

definition tick :: "nat \<Rightarrow> game \<Rightarrow> error + game" where
  "tick rnd s = (if gameInterval s then newGameState rnd s else Inr s)"

text \<open>
  The states the game can be in: the state after loading, and every state that a tick, a
  key press or a call of \<open>restartGame\<close> (from the restart button or from an accepted
  game-over prompt) produces from such a state. A call that throws adds no state: in a
  well-formed state the tick never throws, and a key handler can throw only before it has
  assigned anything.
\<close>

inductive reachable :: "game \<Rightarrow> bool" where
  start: "reachable loaded"
| timer: "reachable s \<Longrightarrow> rnd < 7 \<Longrightarrow> tick rnd s = Inr s' \<Longrightarrow> reachable s'"
| key: "reachable s \<Longrightarrow> keydown k s = Inr s' \<Longrightarrow> reachable s'"
| restart: "reachable s \<Longrightarrow> reachable (restartGame s)"

subsection \<open>Notions used in the statements\<close>

text \<open>A row is complete when every cell of it is nonzero.\<close>

definition complete_row :: "jsval list \<Rightarrow> bool" where
  "complete_row r = list_all (\<lambda>c. c \<noteq> Num 0) r"

definition rows_of_width :: "nat \<Rightarrow> matrix \<Rightarrow> bool" where
  "rows_of_width n g = list_all (\<lambda>r. length r = n) g"

text \<open>The count that one pass of \<open>checkGrid\<close> reaches, and the grid it leaves.\<close>

definition passCount :: "matrix \<Rightarrow> nat" where
  "passCount g = snd (checkGrid_loop 0 g 0)"

definition passGrid :: "matrix \<Rightarrow> matrix" where
  "passGrid g = fst (checkGrid_loop 0 g 0)"

text \<open>The board of the data model: 20 rows of 10 cells, every cell a number from 0 to 7.\<close>

definition board_shape :: "matrix \<Rightarrow> bool" where
  "board_shape g = (length g = ROWS \<and> rows_of_width COLS g)"

fun valid_cell :: "jsval \<Rightarrow> bool" where
  "valid_cell Undefined = False"
| "valid_cell (Num n) = (0 \<le> n \<and> n \<le> 7)"

definition valid_board :: "matrix \<Rightarrow> bool" where
  "valid_board g = (board_shape g \<and> list_all (list_all valid_cell) g)"

text \<open>
  The filled cells of a shape matrix, as pairs of a row index and a column index; the
  positions of the board; and the board cells that hold a nonzero value.
\<close>

definition filled :: "matrix \<Rightarrow> nat \<Rightarrow> nat \<Rightarrow> bool" where
  "filled pc i j = (i < length pc \<and> j < length (pc ! i) \<and> pc ! i ! j = Num 1)"

definition filled_cells :: "matrix \<Rightarrow> (nat \<times> nat) list" where
  "filled_cells pc =
     concat (map (\<lambda>i. map (\<lambda>j. (i, j)) (filter (\<lambda>j. pc ! i ! j = Num 1) [0..<length (pc ! i)]))
               [0..<length pc])"

definition in_board :: "int \<Rightarrow> int \<Rightarrow> bool" where
  "in_board p q = (0 \<le> p \<and> p < int COLS \<and> 0 \<le> q \<and> q < int ROWS)"

definition occupied :: "matrix \<Rightarrow> int \<Rightarrow> int \<Rightarrow> bool" where
  "occupied g p q = (g ! nat q ! nat p \<noteq> Num 0)"

text \<open>
  A position where a filled cell of a piece is illegal: off the board, or on a board cell
  that holds a nonzero value.
\<close>

definition blocked :: "matrix \<Rightarrow> int \<Rightarrow> int \<Rightarrow> bool" where
  "blocked g p q = (\<not> in_board p q \<or> occupied g p q)"

text \<open>
  The grid \<open>g'\<close> is the board \<open>g\<close> with the value \<open>c\<close> written at the positions of
  \<open>P\<close> and every other cell as it was.
\<close>

definition merged :: "matrix \<Rightarrow> int \<Rightarrow> (int \<Rightarrow> int \<Rightarrow> bool) \<Rightarrow> matrix \<Rightarrow> bool" where
  "merged g c P g' =
     (board_shape g' \<and>
      (\<forall>q<ROWS. \<forall>p<COLS. g' ! q ! p = (if P (int p) (int q) then Num c else g ! q ! p)))"

text \<open>A piece all of whose filled cells lie on the board, and the well-formed states.\<close>

definition within_board :: "int \<Rightarrow> int \<Rightarrow> matrix \<Rightarrow> bool" where
  "within_board x y pc =
     list_all (\<lambda>(i, j). in_board (x + int j) (y + int i)) (filled_cells pc)"

definition piece_ok :: "fallingPiece \<Rightarrow> bool" where
  "piece_ok f = (1 \<le> colorIndex f \<and> colorIndex f \<le> 7 \<and> within_board (px f) (py f) (piece f))"

definition state_ok :: "game \<Rightarrow> bool" where
  "state_ok s =
     (valid_board (grid s) \<and> (case fallingPieceObj s of None \<Rightarrow> True | Some f \<Rightarrow> piece_ok f))"

definition square :: "nat \<Rightarrow> matrix \<Rightarrow> bool" where
  "square n pc = (length pc = n \<and> rows_of_width n pc)"

subsection \<open>Sample boards and states\<close>

text \<open>A board whose two bottom rows are complete and adjacent.\<close>

definition two_complete_rows :: matrix where
  "two_complete_rows = replicate 18 emptyRow @ [replicate 10 (Num 3), replicate 10 (Num 5)]"

text \<open>The T-shape one row below its spawning position, on the empty board.\<close>

definition T_at_row_1 :: game where
  "T_at_row_1 = loaded\<lparr>fallingPieceObj := Some ((randomPieceObject 5)\<lparr>py := 1\<rparr>)\<rparr>"

text \<open>
  The I-shape moved to the right wall and to the left wall: its filled cells are in
  column 1 of its matrix, so they stand in board column 9 and in board column 0.
\<close>

definition I_at_right_wall :: game where
  "I_at_right_wall = loaded\<lparr>fallingPieceObj := Some ((randomPieceObject 0)\<lparr>px := 8\<rparr>)\<rparr>"

definition I_at_left_wall :: game where
  "I_at_left_wall = loaded\<lparr>fallingPieceObj := Some ((randomPieceObject 0)\<lparr>px := - 1\<rparr>)\<rparr>"

text \<open>
  The O-shape at its spawning position above a stack that reaches up to row 2, so that it
  cannot go down at all.
\<close>

definition O_on_full_stack :: game where
  "O_on_full_stack =
     loaded\<lparr>grid := replicate 2 emptyRow @ replicate 18 (Num 0 # replicate 9 (Num 3)),
            fallingPieceObj := Some (randomPieceObject 6)\<rparr>"

text \<open>
  The O-shape as spawned on the empty board, the board with the O-shape locked on the
  floor, and the state in which the first piece of a game has just been locked there.
\<close>

definition O_spawned :: game where
  "O_spawned = loaded\<lparr>fallingPieceObj := Some (randomPieceObject 6)\<rparr>"

definition O_locked_grid :: matrix where
  "O_locked_grid =
     replicate 18 emptyRow @
     replicate 2 [Num 0, Num 0, Num 0, Num 0, Num 7, Num 7, Num 0, Num 0, Num 0, Num 0]"

definition after_first_lock :: game where
  "after_first_lock = loaded\<lparr>grid := O_locked_grid\<rparr>"

section \<open>Line clearing and scoring\<close>

lemma allFilled_complete:
  assumes "i < length g" and "length (g ! 0) = length (g ! i)"
  shows "allFilled g i = complete_row (g ! i)"
  using assms by (auto simp: allFilled_def complete_row_def list_all_length js_get_def)

lemma length_emptyRow: "length emptyRow = COLS"
  by (simp add: emptyRow_def COLS_def)

text \<open>
  The loop at index \<open>length pre\<close>, where \<open>pre\<close> are the rows already passed (with the empty
  rows put in front of them) and \<open>rest\<close> the rows still to be scanned: a removal moves the
  rows before the index down by one and leaves the rows after it in place, so the next
  index holds the next unscanned row.
\<close>

lemma checkGrid_loop_spec:
  assumes "rows_of_width COLS (pre @ rest)"
  shows "checkGrid_loop (length pre) (pre @ rest) c =
           (replicate (length (filter complete_row rest)) emptyRow @ pre @
              filter (\<lambda>r. \<not> complete_row r) rest,
            c + length (filter complete_row rest))"
  using assms
proof (induction rest arbitrary: pre c)
  case Nil
  show ?case by (subst checkGrid_loop.simps) simp
next
  case (Cons r rest)
  let ?g = "pre @ r # rest"
  have w: "length (?g ! 0) = length (?g ! length pre)"
    using Cons.prems by (cases pre) (auto simp: rows_of_width_def)
  have af: "allFilled ?g (length pre) = complete_row r"
    using allFilled_complete[of "length pre" ?g] w by simp
  show ?case
  proof (cases "complete_row r")
    case True
    have rw: "rows_of_width COLS ((emptyRow # pre) @ rest)"
      using Cons.prems by (simp add: rows_of_width_def length_emptyRow)
    have "checkGrid_loop (length pre) ?g c =
            checkGrid_loop (length (emptyRow # pre)) ((emptyRow # pre) @ rest) (c + 1)"
      using True af by (subst checkGrid_loop.simps) simp
    also have "\<dots> =
        (replicate (length (filter complete_row rest)) emptyRow @ (emptyRow # pre) @
           filter (\<lambda>r. \<not> complete_row r) rest,
         (c + 1) + length (filter complete_row rest))"
      by (rule Cons.IH[OF rw])
    finally show ?thesis using True
      by (simp add: replicate_app_Cons_same)
  next
    case False
    have rw: "rows_of_width COLS ((pre @ [r]) @ rest)"
      using Cons.prems by (simp add: rows_of_width_def)
    have "checkGrid_loop (length pre) ?g c =
            checkGrid_loop (length (pre @ [r])) ((pre @ [r]) @ rest) c"
      using False af by (subst checkGrid_loop.simps) simp
    also have "\<dots> =
        (replicate (length (filter complete_row rest)) emptyRow @ (pre @ [r]) @
           filter (\<lambda>r. \<not> complete_row r) rest,
         c + length (filter complete_row rest))"
      by (rule Cons.IH[OF rw])
    finally show ?thesis using False by simp
  qed
qed

lemma checkGrid_pass:
  assumes "rows_of_width COLS g"
  shows "checkGrid_loop 0 g 0 =
           (replicate (length (filter complete_row g)) emptyRow @
              filter (\<lambda>r. \<not> complete_row r) g,
            length (filter complete_row g))"
  using checkGrid_loop_spec[of "[]" g 0] assms by simp

text \<open>
  Claim C1, as stated, says that some board with two adjacent complete rows makes one pass
  of \<open>checkGrid\<close> count fewer rows than were complete before the pass. There is no such
  board: the statement is false of the script.
\<close>

theorem checkGrid_never_undercounts:
  "\<not> (\<exists>g. board_shape g \<and>
          (\<exists>i. Suc i < length g \<and> complete_row (g ! i) \<and> complete_row (g ! Suc i)) \<and>
          passCount g < length (filter complete_row g))"
proof
  assume "\<exists>g. board_shape g \<and>
          (\<exists>i. Suc i < length g \<and> complete_row (g ! i) \<and> complete_row (g ! Suc i)) \<and>
          passCount g < length (filter complete_row g)"
  then obtain g where shape: "board_shape g"
    and less: "passCount g < length (filter complete_row g)"
    by blast
  from shape have "rows_of_width COLS g"
    by (simp add: board_shape_def)
  then have "passCount g = length (filter complete_row g)"
    by (simp add: passCount_def checkGrid_pass)
  with less show False by simp
qed

text \<open>
  Claim C1, amended: on every grid whose rows have 10 cells each, one pass of \<open>checkGrid\<close>
  counts exactly the rows that were complete before the pass, adjacent or not, and leaves
  that many empty rows followed by the incomplete rows in their order.
\<close>

theorem checkGrid_counts_every_complete_row:
  assumes "rows_of_width COLS g"
  shows "passCount g = length (filter complete_row g) \<and>
         passGrid g = replicate (length (filter complete_row g)) emptyRow @
                        filter (\<lambda>r. \<not> complete_row r) g"
  using assms by (simp add: passCount_def passGrid_def checkGrid_pass)

theorem checkGrid_counts_every_complete_row_witness:
  "rows_of_width COLS two_complete_rows \<and> passCount two_complete_rows = 2 \<and>
   passGrid two_complete_rows = replicate 20 emptyRow"
proof -
  have h: "rows_of_width COLS two_complete_rows"
    by code_simp
  have n: "length (filter complete_row two_complete_rows) = 2"
    by code_simp
  have m: "replicate 2 emptyRow @ filter (\<lambda>r. \<not> complete_row r) two_complete_rows =
             replicate 20 emptyRow"
    by code_simp
  show ?thesis
    using checkGrid_counts_every_complete_row[OF h] h by (simp only: n m)
qed

text \<open>
  Claim C3: one pass that counts \<open>n\<close> rows adds 0 to the score when \<open>n\<close> is 0, 10 when it
  is 1, 30 when it is 2, 50 when it is 3 and 100 when it is 4 or more; no pass adds any
  other amount.
\<close>

theorem checkGrid_score:
  "score (checkGrid s) =
     score s + (if passCount (grid s) = 0 then 0
                else if passCount (grid s) = 1 then 10
                else if passCount (grid s) = 2 then 30
                else if passCount (grid s) = 3 then 50
                else 100) \<and>
   score (checkGrid s) - score s \<in> {0, 10, 30, 50, 100}"
  by (cases "checkGrid_loop 0 (grid s) 0") (simp add: checkGrid_def passCount_def)

section \<open>Collision\<close>

lemma ex_less_Suc_shift: "(\<exists>k<Suc n. P k) \<longleftrightarrow> P 0 \<or> (\<exists>k<n. P (Suc k))"
proof
  assume "\<exists>k<Suc n. P k"
  then obtain k where k: "k < Suc n" "P k" by blast
  show "P 0 \<or> (\<exists>k<n. P (Suc k))"
  proof (cases k)
    case 0
    with k show ?thesis by simp
  next
    case (Suc m)
    with k show ?thesis by auto
  qed
next
  assume "P 0 \<or> (\<exists>k<n. P (Suc k))"
  then show "\<exists>k<Suc n. P k" by auto
qed

lemma valid_board_cell:
  assumes "valid_board g" "in_board p q"
  shows "nat q < length g" "nat p < length (g ! nat q)" "valid_cell (g ! nat q ! nat p)"
  using assms
  by (auto simp: valid_board_def board_shape_def rows_of_width_def in_board_def list_all_length)

lemma js_gt0_valid: "valid_cell v \<Longrightarrow> js_gt0 v = (v \<noteq> Num 0)"
  by (cases v) auto

lemma collision_cell_in_board:
  "collision_cell g p q =
     (if in_board p q then
        (if nat q < length g then Inr (js_gt0 (js_get (g ! nat q) (nat p))) else Inl TypeError)
      else Inr True)"
  by (simp add: collision_cell_def in_board_def)

lemma collision_cell_valid:
  assumes "valid_board g"
  shows "collision_cell g p q = Inr (blocked g p q)"
proof (cases "in_board p q")
  case True
  note c = valid_board_cell[OF assms True]
  have "collision_cell g p q = Inr (js_gt0 (g ! nat q ! nat p))"
    using True c(1,2) by (simp add: collision_cell_in_board js_get_def)
  then show ?thesis
    using True c(3) by (simp add: blocked_def occupied_def js_gt0_valid)
next
  case False
  then show ?thesis
    by (simp add: collision_cell_in_board blocked_def)
qed

lemma collision_cols_valid:
  assumes "valid_board g"
  shows "collision_cols g x q j cs =
           Inr (\<exists>k<length cs. cs ! k = Num 1 \<and> blocked g (x + int (j + k)) q)"
proof (induction cs arbitrary: j)
  case Nil
  show ?case by simp
next
  case (Cons c cs)
  show ?case
    by (auto simp: collision_cell_valid[OF assms] Cons.IH ex_less_Suc_shift ac_simps)
qed

lemma collision_rows_valid:
  assumes "valid_board g"
  shows "collision_rows g x y i rs =
           Inr (\<exists>k<length rs. \<exists>j<length (rs ! k).
                  rs ! k ! j = Num 1 \<and> blocked g (x + int j) (y + int (i + k)))"
proof (induction rs arbitrary: i)
  case Nil
  show ?case by simp
next
  case (Cons r rs)
  show ?case
    by (auto simp: collision_cols_valid[OF assms] Cons.IH ex_less_Suc_shift ac_simps)
qed

lemma collision_valid:
  assumes "valid_board g"
  shows "collision g x y pc =
           Inr (\<exists>i j. filled pc i j \<and> blocked g (x + int j) (y + int i))"
  unfolding collision_def collision_rows_valid[OF assms] filled_def
  by auto

text \<open>
  Claim C4: on every board, for every shape matrix and every position, \<open>collision\<close>
  returns true exactly when some cell of the matrix that holds 1 lands off the board (a
  negative row or column included) or on a board cell that is nonzero. Cells that do not
  hold 1 are not looked at: a matrix without such a cell collides nowhere. \<open>collision\<close>
  is a function of the grid, the position and the matrix alone and returns no state.
\<close>

theorem collision_iff:
  assumes "valid_board g"
  shows "collision g x y pc =
           Inr (\<exists>i j. filled pc i j \<and>
                  (\<not> in_board (x + int j) (y + int i) \<or>
                   occupied g (x + int j) (y + int i))) \<and>
         ((\<forall>i j. \<not> filled pc i j) \<longrightarrow> collision g x y pc = Inr False)"
  using collision_valid[OF assms, of x y pc] by (simp add: blocked_def)

theorem collision_iff_witness:
  "valid_board generateGrid \<and>
   collision generateGrid (- 1) 0 (SHAPES ! 6) = Inr True \<and>
   collision generateGrid 4 18 (SHAPES ! 6) = Inr False"
proof -
  have v: "valid_board generateGrid"
    by code_simp
  have out: "\<exists>i j. filled (SHAPES ! 6) i j \<and>
               (\<not> in_board (- 1 + int j) (0 + int i) \<or>
                occupied generateGrid (- 1 + int j) (0 + int i))"
    by (rule exI[of _ 0], rule exI[of _ 0])
       (simp add: filled_def SHAPES_def nums_def in_board_def)
  have free: "collision generateGrid 4 18 (SHAPES ! 6) = Inr False"
    by code_simp
  show ?thesis
    using collision_iff[OF v, of "- 1" 0 "SHAPES ! 6"] v out free by simp
qed

section \<open>Rotation\<close>

lemma square_nth: "square n pc \<Longrightarrow> i < n \<Longrightarrow> length (pc ! i) = n"
  by (simp add: square_def rows_of_width_def list_all_length)

lemma length_rotated: "length (rotated pc) = length pc"
  by (simp add: rotated_def)

lemma rotated_row:
  assumes "square n pc" "i < n"
  shows "rotated pc ! i = rev (map (\<lambda>j. pc ! j ! i) [0..<n])"
proof -
  have "length pc = n" using assms(1) by (simp add: square_def)
  then have "rotated pc ! i = rev (map (\<lambda>j. js_get (pc ! j) i) [0..<n])"
    using assms by (simp add: rotated_def rotatedRow_def square_nth)
  also have "map (\<lambda>j. js_get (pc ! j) i) [0..<n] = map (\<lambda>j. pc ! j ! i) [0..<n]"
    using assms by (simp add: js_get_def square_nth)
  finally show ?thesis .
qed

lemma rotated_nth:
  assumes "square n pc" "i < n" "j < n"
  shows "rotated pc ! i ! j = pc ! (n - Suc j) ! i"
  using assms by (simp add: rotated_row rev_nth)

lemma square_rotated:
  assumes "square n pc"
  shows "square n (rotated pc)"
proof -
  have "length pc = n" using assms by (simp add: square_def)
  then show ?thesis
    by (simp add: square_def rows_of_width_def list_all_length length_rotated
        rotated_row[OF assms])
qed

lemma rotated_four:
  assumes "square n pc"
  shows "rotated (rotated (rotated (rotated pc))) = pc"
proof -
  note s1 = square_rotated[OF assms]
  note s2 = square_rotated[OF s1]
  note s3 = square_rotated[OF s2]
  note s4 = square_rotated[OF s3]
  have len: "length pc = n" "length (rotated (rotated (rotated (rotated pc)))) = n"
    using assms s4 by (simp_all add: square_def)
  show ?thesis
  proof (rule nth_equalityI)
    show "length (rotated (rotated (rotated (rotated pc)))) = length pc"
      using len by simp
  next
    fix i assume "i < length (rotated (rotated (rotated (rotated pc))))"
    then have i: "i < n" using len by simp
    show "rotated (rotated (rotated (rotated pc))) ! i = pc ! i"
    proof (rule nth_equalityI)
      show "length (rotated (rotated (rotated (rotated pc))) ! i) = length (pc ! i)"
        using i by (simp add: square_nth[OF s4] square_nth[OF assms])
    next
      fix j assume "j < length (rotated (rotated (rotated (rotated pc))) ! i)"
      then have j: "j < n" using i by (simp add: square_nth[OF s4])
      have a: "n - Suc j < n" "n - Suc i < n" using i j by simp_all
      have b: "n - Suc (n - Suc j) = j" "n - Suc (n - Suc i) = i" using i j by simp_all
      show "rotated (rotated (rotated (rotated pc))) ! i ! j = pc ! i ! j"
        by (simp add: rotated_nth[OF s3 i j] rotated_nth[OF s2 a(1) i]
            rotated_nth[OF s1 a(2) a(1)] rotated_nth[OF assms] a b j i)
    qed
  qed
qed

lemma rotatedPiece_square:
  assumes "square n pc"
  shows "rotatedPiece pc = Inr (rotated pc)"
  using assms by (simp add: rotatedPiece_def square_def rows_of_width_def list_all_length)

lemma rotate_accept:
  assumes "fallingPieceObj s = Some f" "rotatedPiece (piece f) = Inr r"
    and "collision (grid s) (px f) (py f) r = Inr False"
  shows "rotate_piece s = Inr (s\<lparr>fallingPieceObj := Some (f\<lparr>piece := r\<rparr>)\<rparr>)"
  using assms by (simp add: rotate_piece_def)

text \<open>
  Claim C5: for a square shape matrix the rotation of the script (transpose, then reverse
  each row) never throws, and four rotations give the matrix back; so four calls of
  \<open>rotate\<close>, none of them rejected by \<open>collision\<close>, return the state they started from.
\<close>

theorem rotate_four_times:
  assumes "square n pc"
  shows "rotatedPiece pc = Inr (rotated pc) \<and>
         rotated (rotated (rotated (rotated pc))) = pc \<and>
         (fallingPieceObj s = Some f \<and> piece f = pc \<and>
          collision (grid s) (px f) (py f) (rotated pc) = Inr False \<and>
          collision (grid s) (px f) (py f) (rotated (rotated pc)) = Inr False \<and>
          collision (grid s) (px f) (py f) (rotated (rotated (rotated pc))) = Inr False \<and>
          collision (grid s) (px f) (py f) (rotated (rotated (rotated (rotated pc)))) = Inr False
          \<longrightarrow> repeatedly 4 rotate_piece s = Inr s)"
proof (intro conjI impI)
  show "rotatedPiece pc = Inr (rotated pc)"
    by (rule rotatedPiece_square[OF assms])
  show four: "rotated (rotated (rotated (rotated pc))) = pc"
    by (rule rotated_four[OF assms])
  assume h: "fallingPieceObj s = Some f \<and> piece f = pc \<and>
          collision (grid s) (px f) (py f) (rotated pc) = Inr False \<and>
          collision (grid s) (px f) (py f) (rotated (rotated pc)) = Inr False \<and>
          collision (grid s) (px f) (py f) (rotated (rotated (rotated pc))) = Inr False \<and>
          collision (grid s) (px f) (py f) (rotated (rotated (rotated (rotated pc)))) = Inr False"
  note q1 = square_rotated[OF assms]
  note q2 = square_rotated[OF q1]
  note q3 = square_rotated[OF q2]
  define s1 where "s1 = s\<lparr>fallingPieceObj := Some (f\<lparr>piece := rotated pc\<rparr>)\<rparr>"
  define s2 where "s2 = s\<lparr>fallingPieceObj := Some (f\<lparr>piece := rotated (rotated pc)\<rparr>)\<rparr>"
  define s3 where "s3 = s\<lparr>fallingPieceObj := Some (f\<lparr>piece := rotated (rotated (rotated pc))\<rparr>)\<rparr>"
  have r1: "rotate_piece s = Inr s1"
    using h rotate_accept[of s f "rotated pc"] rotatedPiece_square[OF assms]
    by (simp add: s1_def)
  have r2: "rotate_piece s1 = Inr s2"
    using h rotate_accept[of s1 "f\<lparr>piece := rotated pc\<rparr>" "rotated (rotated pc)"]
      rotatedPiece_square[OF q1]
    by (simp add: s1_def s2_def)
  have r3: "rotate_piece s2 = Inr s3"
    using h rotate_accept[of s2 "f\<lparr>piece := rotated (rotated pc)\<rparr>" "rotated (rotated (rotated pc))"]
      rotatedPiece_square[OF q2]
    by (simp add: s2_def s3_def)
  have r4: "rotate_piece s3 = Inr s"
    using h rotate_accept[of s3 "f\<lparr>piece := rotated (rotated (rotated pc))\<rparr>"
        "rotated (rotated (rotated (rotated pc)))"]
      rotatedPiece_square[OF q3] four
    by (simp add: s3_def)
  show "repeatedly 4 rotate_piece s = Inr s"
    by (simp add: numeral_eq_Suc r1 r2 r3 r4)
qed

theorem rotate_four_times_witness:
  "square 3 (SHAPES ! 5) \<and>
   rotated (SHAPES ! 5) \<noteq> SHAPES ! 5 \<and>
   rotated (rotated (rotated (rotated (SHAPES ! 5)))) = SHAPES ! 5 \<and>
   repeatedly 4 rotate_piece T_at_row_1 = Inr T_at_row_1"
proof -
  have sq: "square 3 (SHAPES ! 5)"
    by code_simp
  have ne: "rotated (SHAPES ! 5) \<noteq> SHAPES ! 5"
    by code_simp
  have f: "fallingPieceObj T_at_row_1 = Some ((randomPieceObject 5)\<lparr>py := 1\<rparr>)"
    "piece ((randomPieceObject 5)\<lparr>py := 1\<rparr>) = SHAPES ! 5"
    by (simp_all add: T_at_row_1_def randomPieceObject_def)
  have c: "collision (grid T_at_row_1) (px ((randomPieceObject 5)\<lparr>py := 1\<rparr>))
             (py ((randomPieceObject 5)\<lparr>py := 1\<rparr>)) (rotated (SHAPES ! 5)) = Inr False"
    "collision (grid T_at_row_1) (px ((randomPieceObject 5)\<lparr>py := 1\<rparr>))
             (py ((randomPieceObject 5)\<lparr>py := 1\<rparr>)) (rotated (rotated (SHAPES ! 5))) = Inr False"
    "collision (grid T_at_row_1) (px ((randomPieceObject 5)\<lparr>py := 1\<rparr>))
             (py ((randomPieceObject 5)\<lparr>py := 1\<rparr>)) (rotated (rotated (rotated (SHAPES ! 5)))) = Inr False"
    "collision (grid T_at_row_1) (px ((randomPieceObject 5)\<lparr>py := 1\<rparr>))
             (py ((randomPieceObject 5)\<lparr>py := 1\<rparr>)) (rotated (rotated (rotated (rotated (SHAPES ! 5))))) = Inr False"
    by code_simp+
  show ?thesis
    using rotate_four_times[OF sq, of T_at_row_1 "(randomPieceObject 5)\<lparr>py := 1\<rparr>"] sq ne f c
    by simp
qed

text \<open>
  Claim C6: \<open>rotate\<close> returns the state as it is when there is no falling piece, and
  when \<open>collision\<close> reports the rotated matrix as colliding at the position of the piece:
  the matrix, the offsets, the board and the score all stay. On a board and for a square
  matrix this is the case as soon as one filled cell of the rotated matrix is blocked;
  no other position is tried.
\<close>

theorem rotate_rejected:
  "(fallingPieceObj s = None \<longrightarrow> rotate_piece s = Inr s) \<and>
   (fallingPieceObj s = Some f \<and> rotatedPiece (piece f) = Inr r \<and>
    collision (grid s) (px f) (py f) r = Inr True \<longrightarrow> rotate_piece s = Inr s) \<and>
   (fallingPieceObj s = Some f \<and> valid_board (grid s) \<and> square n (piece f) \<and>
    (\<exists>i j. filled (rotated (piece f)) i j \<and>
           blocked (grid s) (px f + int j) (py f + int i)) \<longrightarrow> rotate_piece s = Inr s)"
proof (intro conjI impI)
  show "rotate_piece s = Inr s" if "fallingPieceObj s = None"
    using that by (simp add: rotate_piece_def)
  show "rotate_piece s = Inr s"
    if "fallingPieceObj s = Some f \<and> rotatedPiece (piece f) = Inr r \<and>
        collision (grid s) (px f) (py f) r = Inr True"
    using that by (simp add: rotate_piece_def)
  show "rotate_piece s = Inr s"
    if h: "fallingPieceObj s = Some f \<and> valid_board (grid s) \<and> square n (piece f) \<and>
        (\<exists>i j. filled (rotated (piece f)) i j \<and>
           blocked (grid s) (px f + int j) (py f + int i))"
  proof -
    from h have v: "valid_board (grid s)" and sq: "square n (piece f)"
      by simp_all
    have "collision (grid s) (px f) (py f) (rotated (piece f)) = Inr True"
      using h by (simp add: collision_valid[OF v])
    then show ?thesis
      using h by (simp add: rotate_piece_def rotatedPiece_square[OF sq])
  qed
qed

theorem rotate_rejected_witness:
  "fallingPieceObj I_at_right_wall = Some ((randomPieceObject 0)\<lparr>px := 8\<rparr>) \<and>
   rotatedPiece (SHAPES ! 0) = Inr (rotated (SHAPES ! 0)) \<and>
   rotated (SHAPES ! 0) \<noteq> SHAPES ! 0 \<and>
   collision (grid I_at_right_wall) 8 0 (rotated (SHAPES ! 0)) = Inr True \<and>
   rotate_piece I_at_right_wall = Inr I_at_right_wall \<and>
   rotate_piece (loaded\<lparr>fallingPieceObj := None\<rparr>) = Inr (loaded\<lparr>fallingPieceObj := None\<rparr>)"
proof -
  let ?f = "(randomPieceObject 0)\<lparr>px := 8\<rparr>"
  have f: "fallingPieceObj I_at_right_wall = Some ?f"
    by (simp add: I_at_right_wall_def)
  have pf: "piece ?f = SHAPES ! 0" "px ?f = 8" "py ?f = 0"
    by (simp_all add: randomPieceObject_def)
  have r: "rotatedPiece (SHAPES ! 0) = Inr (rotated (SHAPES ! 0))"
    by code_simp
  have ne: "rotated (SHAPES ! 0) \<noteq> SHAPES ! 0"
    by code_simp
  have c: "collision (grid I_at_right_wall) 8 0 (rotated (SHAPES ! 0)) = Inr True"
    by code_simp
  have n: "fallingPieceObj (loaded\<lparr>fallingPieceObj := None\<rparr>) = None"
    by simp
  show ?thesis
    using rotate_rejected[of I_at_right_wall ?f "rotated (SHAPES ! 0)"]
      rotate_rejected[of "loaded\<lparr>fallingPieceObj := None\<rparr>"] f pf r ne c n
    by simp
qed

section \<open>Moving sideways\<close>

lemma collision_left_edge:
  assumes "valid_board g" "filled pc i j" "x + int j = 0"
  shows "collision g (x - 1) y pc = Inr True"
proof -
  have "\<not> in_board (x - 1 + int j) (y + int i)"
    using assms(3) by (simp add: in_board_def)
  then have "\<exists>i j. filled pc i j \<and> blocked g (x - 1 + int j) (y + int i)"
    using assms(2) unfolding blocked_def by blast
  then show ?thesis
    by (simp add: collision_valid[OF assms(1)])
qed

text \<open>
  Claim C7: in a state with a falling piece, on a board, \<open>moveLeft\<close> and \<open>moveRight\<close>
  always return; each takes 1 from, or adds 1 to, the horizontal offset when \<open>collision\<close>
  finds the target position free and returns the state as it is otherwise, so the vertical
  offset, the matrix, the board and the score never change. When a filled cell of the
  piece stands in board column 0, \<open>moveLeft\<close> returns the state as it is.
\<close>

theorem moveLeft_moveRight:
  assumes "fallingPieceObj s = Some f" and "valid_board (grid s)"
  shows "(\<exists>hit. collision (grid s) (px f - 1) (py f) (piece f) = Inr hit \<and>
            moveLeft s =
              Inr (if hit then s else s\<lparr>fallingPieceObj := Some (f\<lparr>px := px f - 1\<rparr>)\<rparr>)) \<and>
         (\<exists>hit. collision (grid s) (px f + 1) (py f) (piece f) = Inr hit \<and>
            moveRight s =
              Inr (if hit then s else s\<lparr>fallingPieceObj := Some (f\<lparr>px := px f + 1\<rparr>)\<rparr>)) \<and>
         ((\<exists>i j. filled (piece f) i j \<and> px f + int j = 0) \<longrightarrow> moveLeft s = Inr s)"
proof (intro conjI impI)
  show "\<exists>hit. collision (grid s) (px f - 1) (py f) (piece f) = Inr hit \<and>
            moveLeft s =
              Inr (if hit then s else s\<lparr>fallingPieceObj := Some (f\<lparr>px := px f - 1\<rparr>)\<rparr>)"
    using assms(1) by (auto simp: collision_valid[OF assms(2)] moveLeft_def)
  show "\<exists>hit. collision (grid s) (px f + 1) (py f) (piece f) = Inr hit \<and>
            moveRight s =
              Inr (if hit then s else s\<lparr>fallingPieceObj := Some (f\<lparr>px := px f + 1\<rparr>)\<rparr>)"
    using assms(1) by (auto simp: collision_valid[OF assms(2)] moveRight_def)
  assume "\<exists>i j. filled (piece f) i j \<and> px f + int j = 0"
  then obtain i j where "filled (piece f) i j" "px f + int j = 0" by blast
  then have "collision (grid s) (px f - 1) (py f) (piece f) = Inr True"
    by (rule collision_left_edge[OF assms(2)])
  then show "moveLeft s = Inr s"
    using assms(1) by (simp add: moveLeft_def)
qed

theorem moveLeft_moveRight_witness:
  "fallingPieceObj I_at_left_wall = Some ((randomPieceObject 0)\<lparr>px := - 1\<rparr>) \<and>
   valid_board (grid I_at_left_wall) \<and>
   filled (piece ((randomPieceObject 0)\<lparr>px := - 1\<rparr>)) 0 1 \<and>
   moveLeft I_at_left_wall = Inr I_at_left_wall \<and>
   moveRight I_at_left_wall = Inr (loaded\<lparr>fallingPieceObj := Some ((randomPieceObject 0)\<lparr>px := 0\<rparr>)\<rparr>)"
proof -
  let ?f = "(randomPieceObject 0)\<lparr>px := - 1\<rparr>"
  have f: "fallingPieceObj I_at_left_wall = Some ?f"
    by (simp add: I_at_left_wall_def)
  have v: "valid_board (grid I_at_left_wall)"
    by code_simp
  have c: "filled (piece ?f) 0 1"
    by code_simp
  have e: "\<exists>i j. filled (piece ?f) i j \<and> px ?f + int j = 0"
  proof (rule exI[of _ 0], rule exI[of _ 1])
    show "filled (piece ?f) 0 1 \<and> px ?f + int 1 = 0"
      using c by (simp add: randomPieceObject_def)
  qed
  have r: "collision (grid I_at_left_wall) (px ?f + 1) (py ?f) (piece ?f) = Inr False"
    by code_simp
  have u: "I_at_left_wall\<lparr>fallingPieceObj := Some (?f\<lparr>px := px ?f + 1\<rparr>)\<rparr> =
           loaded\<lparr>fallingPieceObj := Some ((randomPieceObject 0)\<lparr>px := 0\<rparr>)\<rparr>"
    by (simp add: I_at_left_wall_def randomPieceObject_def)
  show ?thesis
    using moveLeft_moveRight[OF f v] f v c e r u by auto
qed

section \<open>Locking a piece\<close>

lemma merged_refl: "board_shape g \<Longrightarrow> merged g c (\<lambda>p q. False) g"
  by (simp add: merged_def)

lemma merged_trans:
  assumes "merged g c P g1" "merged g1 c Q g2"
  shows "merged g c (\<lambda>p q. P p q \<or> Q p q) g2"
  using assms by (simp add: merged_def)

lemma board_shape_nth:
  "board_shape g \<Longrightarrow> q < ROWS \<Longrightarrow> length (g ! q) = COLS"
  by (simp add: board_shape_def rows_of_width_def list_all_length)

lemma board_shape_update:
  assumes "board_shape g" "q < ROWS" "p < COLS"
  shows "board_shape (g[q := (g ! q)[p := v]])"
  using assms
  by (auto simp: board_shape_def rows_of_width_def list_all_length nth_list_update)

lemma set_cell_merged:
  assumes "board_shape g" "in_board p q"
  shows "\<exists>g'. set_cell g q p c = Inr g' \<and> merged g c (\<lambda>p' q'. p' = p \<and> q' = q) g'"
proof -
  have b: "0 \<le> p" "0 \<le> q" "nat p < COLS" "nat q < ROWS"
    using assms(2) by (simp_all add: in_board_def nat_less_iff)
  have len: "length g = ROWS" "length (g ! nat q) = COLS"
    using assms(1) b by (simp_all add: board_shape_def board_shape_nth)
  have eq: "set_cell g q p c = Inr (g[nat q := (g ! nat q)[nat p := Num c]])"
    using b len by (simp add: set_cell_def)
  have cells: "\<forall>q'<ROWS. \<forall>p'<COLS.
      g[nat q := (g ! nat q)[nat p := Num c]] ! q' ! p' =
        (if int p' = p \<and> int q' = q then Num c else g ! q' ! p')"
    using b len by (auto simp: nth_list_update)
  show ?thesis
    using eq cells board_shape_update[OF assms(1) b(4) b(3)] by (simp add: merged_def)
qed

lemma lock_cols_merged:
  assumes "board_shape g"
    and "\<forall>k<length vs. vs ! k = Num 1 \<longrightarrow> in_board (x + int (j + k)) q"
  shows "\<exists>g'. lock_cols g c x q j vs = Inr g' \<and>
           merged g c (\<lambda>p q'. q' = q \<and> (\<exists>k<length vs. vs ! k = Num 1 \<and> p = x + int (j + k))) g'"
  using assms
proof (induction vs arbitrary: g j)
  case Nil
  then show ?case by (simp add: merged_refl)
next
  case (Cons v vs)
  have rest: "\<forall>k<length vs. vs ! k = Num 1 \<longrightarrow> in_board (x + int (Suc j + k)) q"
  proof (intro allI impI)
    fix k assume "k < length vs" "vs ! k = Num 1"
    then have "Suc k < length (v # vs)" "(v # vs) ! Suc k = Num 1"
      by simp_all
    with Cons.prems(2) have "in_board (x + int (j + Suc k)) q"
      by blast
    then show "in_board (x + int (Suc j + k)) q"
      by simp
  qed
  show ?case
  proof (cases "v = Num 1")
    case True
    have "in_board (x + int j) q"
      using Cons.prems(2) True by auto
    from set_cell_merged[OF Cons.prems(1) this, of c]
    obtain g1 where g1: "set_cell g q (x + int j) c = Inr g1"
      "merged g c (\<lambda>p' q'. p' = x + int j \<and> q' = q) g1"
      by blast
    have "board_shape g1" using g1(2) by (simp add: merged_def)
    from Cons.IH[OF this rest]
    obtain g2 where g2: "lock_cols g1 c x q (Suc j) vs = Inr g2"
      "merged g1 c (\<lambda>p q'. q' = q \<and> (\<exists>k<length vs. vs ! k = Num 1 \<and> p = x + int (Suc j + k))) g2"
      by blast
    have pred: "(\<lambda>p q'. q' = q \<and> (\<exists>k<length (v # vs). (v # vs) ! k = Num 1 \<and> p = x + int (j + k))) =
        (\<lambda>p q'. (p = x + int j \<and> q' = q) \<or>
                (q' = q \<and> (\<exists>k<length vs. vs ! k = Num 1 \<and> p = x + int (Suc j + k))))"
      using True by (intro ext) (auto simp: ex_less_Suc_shift)
    have "lock_cols g c x q j (v # vs) = Inr g2"
      using True g1(1) g2(1) by simp
    moreover have "merged g c (\<lambda>p q'. q' = q \<and>
        (\<exists>k<length (v # vs). (v # vs) ! k = Num 1 \<and> p = x + int (j + k))) g2"
      unfolding pred by (rule merged_trans[OF g1(2) g2(2)])
    ultimately show ?thesis
      by blast
  next
    case False
    from Cons.IH[OF Cons.prems(1) rest]
    obtain g2 where g2: "lock_cols g c x q (Suc j) vs = Inr g2"
      "merged g c (\<lambda>p q'. q' = q \<and> (\<exists>k<length vs. vs ! k = Num 1 \<and> p = x + int (Suc j + k))) g2"
      by blast
    have pred: "(\<lambda>p q'. q' = q \<and> (\<exists>k<length (v # vs). (v # vs) ! k = Num 1 \<and> p = x + int (j + k))) =
        (\<lambda>p q'. q' = q \<and> (\<exists>k<length vs. vs ! k = Num 1 \<and> p = x + int (Suc j + k)))"
      using False by (intro ext) (auto simp: ex_less_Suc_shift)
    have "lock_cols g c x q j (v # vs) = Inr g2"
      using False g2(1) by simp
    moreover have "merged g c (\<lambda>p q'. q' = q \<and>
        (\<exists>k<length (v # vs). (v # vs) ! k = Num 1 \<and> p = x + int (j + k))) g2"
      unfolding pred by (rule g2(2))
    ultimately show ?thesis
      by blast
  qed
qed

lemma lock_rows_merged:
  assumes "board_shape g"
    and "\<forall>k<length rs. \<forall>j<length (rs ! k).
           rs ! k ! j = Num 1 \<longrightarrow> in_board (x + int j) (y + int (i + k))"
  shows "\<exists>g'. lock_rows g c x y i rs = Inr g' \<and>
           merged g c (\<lambda>p q. \<exists>k<length rs. \<exists>j<length (rs ! k).
                          rs ! k ! j = Num 1 \<and> p = x + int j \<and> q = y + int (i + k)) g'"
  using assms
proof (induction rs arbitrary: g i)
  case Nil
  then show ?case by (simp add: merged_refl)
next
  case (Cons r rs)
  have first: "\<forall>k<length r. r ! k = Num 1 \<longrightarrow> in_board (x + int (0 + k)) (y + int i)"
  proof (intro allI impI)
    fix k assume "k < length r" "r ! k = Num 1"
    then have "0 < length (r # rs)" "k < length ((r # rs) ! 0)" "(r # rs) ! 0 ! k = Num 1"
      by simp_all
    with Cons.prems(2) have "in_board (x + int k) (y + int (i + 0))"
      by blast
    then show "in_board (x + int (0 + k)) (y + int i)"
      by simp
  qed
  have rest: "\<forall>k<length rs. \<forall>j<length (rs ! k).
           rs ! k ! j = Num 1 \<longrightarrow> in_board (x + int j) (y + int (Suc i + k))"
  proof (intro allI impI)
    fix k j assume "k < length rs" "j < length (rs ! k)" "rs ! k ! j = Num 1"
    then have "Suc k < length (r # rs)" "j < length ((r # rs) ! Suc k)"
      "(r # rs) ! Suc k ! j = Num 1"
      by simp_all
    with Cons.prems(2) have "in_board (x + int j) (y + int (i + Suc k))"
      by blast
    then show "in_board (x + int j) (y + int (Suc i + k))"
      by simp
  qed
  from lock_cols_merged[OF Cons.prems(1) first, of c]
  obtain g1 where g1: "lock_cols g c x (y + int i) 0 r = Inr g1"
    "merged g c (\<lambda>p q'. q' = y + int i \<and> (\<exists>k<length r. r ! k = Num 1 \<and> p = x + int (0 + k))) g1"
    by blast
  have "board_shape g1" using g1(2) by (simp add: merged_def)
  from Cons.IH[OF this rest]
  obtain g2 where g2: "lock_rows g1 c x y (Suc i) rs = Inr g2"
    "merged g1 c (\<lambda>p q. \<exists>k<length rs. \<exists>j<length (rs ! k).
                          rs ! k ! j = Num 1 \<and> p = x + int j \<and> q = y + int (Suc i + k)) g2"
    by blast
  have pred: "(\<lambda>p q. \<exists>k<length (r # rs). \<exists>j<length ((r # rs) ! k).
                 (r # rs) ! k ! j = Num 1 \<and> p = x + int j \<and> q = y + int (i + k)) =
      (\<lambda>p q. (q = y + int i \<and> (\<exists>k<length r. r ! k = Num 1 \<and> p = x + int (0 + k))) \<or>
             (\<exists>k<length rs. \<exists>j<length (rs ! k).
                          rs ! k ! j = Num 1 \<and> p = x + int j \<and> q = y + int (Suc i + k)))"
    by (intro ext) (auto simp: ex_less_Suc_shift)
  have "lock_rows g c x y i (r # rs) = Inr g2"
    using g1(1) g2(1) by simp
  moreover have "merged g c (\<lambda>p q. \<exists>k<length (r # rs). \<exists>j<length ((r # rs) ! k).
                 (r # rs) ! k ! j = Num 1 \<and> p = x + int j \<and> q = y + int (i + k)) g2"
    unfolding pred by (rule merged_trans[OF g1(2) g2(2)])
  ultimately show ?case
    by blast
qed

lemma within_board_filled:
  "within_board x y pc \<longleftrightarrow> (\<forall>i j. filled pc i j \<longrightarrow> in_board (x + int j) (y + int i))"
  by (auto simp: within_board_def list_all_iff filled_cells_def filled_def)

lemma lock_merged:
  assumes "board_shape g" "within_board x y pc"
  shows "\<exists>g'. lock_rows g c x y 0 pc = Inr g' \<and>
           merged g c (\<lambda>p q. \<exists>i j. filled pc i j \<and> p = x + int j \<and> q = y + int i) g'"
proof -
  have pre: "\<forall>k<length pc. \<forall>j<length (pc ! k).
           pc ! k ! j = Num 1 \<longrightarrow> in_board (x + int j) (y + int (0 + k))"
    using assms(2) by (simp add: within_board_filled filled_def)
  have pred: "(\<lambda>p q. \<exists>k<length pc. \<exists>j<length (pc ! k).
                 pc ! k ! j = Num 1 \<and> p = x + int j \<and> q = y + int (0 + k)) =
      (\<lambda>p q. \<exists>i j. filled pc i j \<and> p = x + int j \<and> q = y + int i)"
    by (intro ext) (auto simp: filled_def)
  from lock_rows_merged[OF assms(1) pre, of c]
  show ?thesis
    unfolding pred .
qed

lemma merged_cell:
  assumes "merged g c P g'" "in_board p q" "P p q"
  shows "g' ! nat q ! nat p = Num c"
proof -
  have "nat q < ROWS" "nat p < COLS" "int (nat p) = p" "int (nat q) = q"
    using assms(2) by (simp_all add: in_board_def nat_less_iff)
  then show ?thesis
    using assms(1,3) by (simp add: merged_def)
qed

lemma merged_valid:
  assumes "valid_board g" "0 \<le> c" "c \<le> 7" "merged g c P g'"
  shows "valid_board g'"
proof -
  have shape: "board_shape g'"
    using assms(4) by (simp add: merged_def)
  have old: "valid_cell (g ! q ! p)" if "q < ROWS" "p < COLS" for q p
    using assms(1) that
    by (simp add: valid_board_def board_shape_def rows_of_width_def list_all_length)
  have "valid_cell (g' ! q ! p)" if "q < ROWS" "p < COLS" for q p
    using assms(2,3,4) old[OF that] that by (simp add: merged_def)
  then show ?thesis
    using shape
    by (simp add: valid_board_def board_shape_def rows_of_width_def list_all_length)
qed

text \<open>
  Claim C8: when \<open>moveDown\<close> finds the position one row down colliding, for a piece whose
  filled cells lie on the board, it returns; every filled cell of the piece then holds
  the fill-code of the piece in the grid, every other cell is as before, and there is no
  falling piece any more. The interval is cleared, the running flag reset and a game-over
  prompt scheduled exactly when the vertical offset of the piece is 0; otherwise all
  three stay as they were.
\<close>

theorem moveDown_lock:
  assumes "fallingPieceObj s = Some f" and "board_shape (grid s)"
    and "within_board (px f) (py f) (piece f)"
    and "collision (grid s) (px f) (py f + 1) (piece f) = Inr True"
  shows "\<exists>s'. moveDown s = Inr s' \<and> fallingPieceObj s' = None \<and> score s' = score s \<and>
           board_shape (grid s') \<and>
           (\<forall>i j. filled (piece f) i j \<longrightarrow>
                  grid s' ! nat (py f + int i) ! nat (px f + int j) = Num (colorIndex f)) \<and>
           (\<forall>q<ROWS. \<forall>p<COLS.
              (\<nexists>i j. filled (piece f) i j \<and> int p = px f + int j \<and> int q = py f + int i) \<longrightarrow>
              grid s' ! q ! p = grid s ! q ! p) \<and>
           (if py f = 0
            then \<not> isGameRunning s' \<and> \<not> gameInterval s' \<and>
                 gameOverPrompts s' = gameOverPrompts s + 1
            else isGameRunning s' = isGameRunning s \<and> gameInterval s' = gameInterval s \<and>
                 gameOverPrompts s' = gameOverPrompts s)"
proof -
  from lock_merged[OF assms(2,3), of "colorIndex f"]
  obtain g' where lock: "lock_rows (grid s) (colorIndex f) (px f) (py f) 0 (piece f) = Inr g'"
    and m: "merged (grid s) (colorIndex f)
              (\<lambda>p q. \<exists>i j. filled (piece f) i j \<and> p = px f + int j \<and> q = py f + int i) g'"
    by blast
  define s' where "s' =
    (if py f = 0
     then s\<lparr>grid := g', gameInterval := False, isGameRunning := False,
            gameOverPrompts := gameOverPrompts s + 1, fallingPieceObj := None\<rparr>
     else s\<lparr>grid := g', fallingPieceObj := None\<rparr>)"
  have run: "moveDown s = Inr s'"
    using assms(1,4) lock by (simp add: moveDown_def s'_def)
  have g: "grid s' = g'"
    by (simp add: s'_def)
  have cells: "grid s' ! nat (py f + int i) ! nat (px f + int j) = Num (colorIndex f)"
    if "filled (piece f) i j" for i j
  proof -
    have "in_board (px f + int j) (py f + int i)"
      using assms(3) that by (simp add: within_board_filled)
    then show ?thesis
      unfolding g using that by (intro merged_cell[OF m]) auto
  qed
  have others: "\<forall>q<ROWS. \<forall>p<COLS.
      (\<nexists>i j. filled (piece f) i j \<and> int p = px f + int j \<and> int q = py f + int i) \<longrightarrow>
      grid s' ! q ! p = grid s ! q ! p"
  proof (intro allI impI)
    fix q p
    assume "q < ROWS" "p < COLS"
      and "\<nexists>i j. filled (piece f) i j \<and> int p = px f + int j \<and> int q = py f + int i"
    then show "grid s' ! q ! p = grid s ! q ! p"
      unfolding g using m by (auto simp: merged_def)
  qed
  have shape: "board_shape (grid s')"
    unfolding g using m by (simp add: merged_def)
  show ?thesis
  proof (intro exI[of _ s'] conjI)
    show "moveDown s = Inr s'" by (rule run)
    show "fallingPieceObj s' = None" by (simp add: s'_def)
    show "score s' = score s" by (simp add: s'_def)
    show "board_shape (grid s')" by (rule shape)
    show "\<forall>i j. filled (piece f) i j \<longrightarrow>
            grid s' ! nat (py f + int i) ! nat (px f + int j) = Num (colorIndex f)"
      using cells by blast
    show "\<forall>q<ROWS. \<forall>p<COLS.
      (\<nexists>i j. filled (piece f) i j \<and> int p = px f + int j \<and> int q = py f + int i) \<longrightarrow>
      grid s' ! q ! p = grid s ! q ! p"
      by (rule others)
    show "if py f = 0
            then \<not> isGameRunning s' \<and> \<not> gameInterval s' \<and>
                 gameOverPrompts s' = gameOverPrompts s + 1
            else isGameRunning s' = isGameRunning s \<and> gameInterval s' = gameInterval s \<and>
                 gameOverPrompts s' = gameOverPrompts s"
      by (simp add: s'_def)
  qed
qed

theorem moveDown_lock_witness:
  "fallingPieceObj O_on_full_stack = Some (randomPieceObject 6) \<and>
   board_shape (grid O_on_full_stack) \<and>
   within_board (px (randomPieceObject 6)) (py (randomPieceObject 6)) (piece (randomPieceObject 6)) \<and>
   collision (grid O_on_full_stack) (px (randomPieceObject 6)) (py (randomPieceObject 6) + 1)
     (piece (randomPieceObject 6)) = Inr True \<and>
   (\<exists>s'. moveDown O_on_full_stack = Inr s' \<and> fallingPieceObj s' = None \<and>
         grid s' ! 1 ! 5 = Num 7 \<and> \<not> isGameRunning s' \<and> \<not> gameInterval s' \<and>
         gameOverPrompts s' = 1)"
proof -
  let ?f = "randomPieceObject 6"
  have h1: "fallingPieceObj O_on_full_stack = Some ?f"
    by (simp add: O_on_full_stack_def)
  have h2: "board_shape (grid O_on_full_stack)"
    by code_simp
  have h3: "within_board (px ?f) (py ?f) (piece ?f)"
    by code_simp
  have h4: "collision (grid O_on_full_stack) (px ?f) (py ?f + 1) (piece ?f) = Inr True"
    by code_simp
  have c: "filled (piece ?f) 1 1" "py ?f = 0" "nat (py ?f + int 1) = 1" "nat (px ?f + int 1) = 5"
    "colorIndex ?f = 7" "gameOverPrompts O_on_full_stack = 0"
    by code_simp+
  from moveDown_lock[OF h1 h2 h3 h4]
  obtain s' where s': "moveDown O_on_full_stack = Inr s'" "fallingPieceObj s' = None"
    "\<forall>i j. filled (piece ?f) i j \<longrightarrow>
       grid s' ! nat (py ?f + int i) ! nat (px ?f + int j) = Num (colorIndex ?f)"
    "if py ?f = 0
     then \<not> isGameRunning s' \<and> \<not> gameInterval s' \<and>
          gameOverPrompts s' = gameOverPrompts O_on_full_stack + 1
     else isGameRunning s' = isGameRunning O_on_full_stack \<and>
          gameInterval s' = gameInterval O_on_full_stack \<and>
          gameOverPrompts s' = gameOverPrompts O_on_full_stack"
    by blast
  from s'(3) c(1) have "grid s' ! nat (py ?f + int 1) ! nat (px ?f + int 1) = Num (colorIndex ?f)"
    by blast
  then have cell: "grid s' ! 1 ! 5 = Num 7"
    by (simp add: randomPieceObject_def)
  from s'(4) have over: "\<not> isGameRunning s' \<and> \<not> gameInterval s' \<and> gameOverPrompts s' = 1"
    by (simp add: c)
  show ?thesis
    using h1 h2 h3 h4 s'(1,2) cell over by blast
qed

section \<open>Invariants of the state\<close>

lemma valid_generateGrid: "valid_board generateGrid"
  by code_simp

lemma valid_emptyRow: "list_all valid_cell emptyRow"
  by code_simp

lemma checkGrid_fields:
  "grid (checkGrid s) = passGrid (grid s)"
  "fallingPieceObj (checkGrid s) = fallingPieceObj s"
  "gameInterval (checkGrid s) = gameInterval s"
  "isGameRunning (checkGrid s) = isGameRunning s"
  "gameOverPrompts (checkGrid s) = gameOverPrompts s"
  by (cases "checkGrid_loop 0 (grid s) 0"; simp add: checkGrid_def passGrid_def)+

lemma passGrid_valid:
  assumes "valid_board g"
  shows "valid_board (passGrid g)"
proof -
  have w: "rows_of_width COLS g" and len: "length g = ROWS"
    and cells: "list_all (list_all valid_cell) g"
    using assms by (simp_all add: valid_board_def board_shape_def)
  have eq: "passGrid g = replicate (length (filter complete_row g)) emptyRow @
                        filter (\<lambda>r. \<not> complete_row r) g"
    by (simp add: passGrid_def checkGrid_pass[OF w])
  have l: "length (passGrid g) = ROWS"
    unfolding eq using len sum_length_filter_compl[of complete_row g] by simp
  have "rows_of_width COLS (passGrid g)"
    unfolding eq using w by (auto simp: rows_of_width_def list_all_iff length_emptyRow)
  moreover have "list_all (list_all valid_cell) (passGrid g)"
    unfolding eq using cells valid_emptyRow by (auto simp: list_all_iff)
  ultimately show ?thesis
    using l by (simp add: valid_board_def board_shape_def)
qed

lemma free_within_board:
  assumes "valid_board g" "collision g x y pc = Inr False"
  shows "within_board x y pc"
  using assms(2) unfolding collision_valid[OF assms(1)] within_board_filled blocked_def
  by auto

lemma state_ok_Some:
  "fallingPieceObj s = Some f \<Longrightarrow> state_ok s = (valid_board (grid s) \<and> piece_ok f)"
  by (simp add: state_ok_def)

lemma moveDown_cases:
  assumes "state_ok s" "fallingPieceObj s = Some f"
  shows "\<exists>s'. moveDown s = Inr s' \<and> state_ok s'"
proof -
  have v: "valid_board (grid s)" and p: "piece_ok f"
    using assms by (simp_all add: state_ok_Some)
  obtain hit where c: "collision (grid s) (px f) (py f + 1) (piece f) = Inr hit"
    by (simp add: collision_valid[OF v])
  show ?thesis
  proof (cases hit)
    case False
    have "within_board (px f) (py f + 1) (piece f)"
      using free_within_board[OF v] c False by simp
    then have "state_ok (s\<lparr>fallingPieceObj := Some (f\<lparr>py := py f + 1\<rparr>)\<rparr>)"
      using v p by (simp add: state_ok_def piece_ok_def)
    moreover have "moveDown s = Inr (s\<lparr>fallingPieceObj := Some (f\<lparr>py := py f + 1\<rparr>)\<rparr>)"
      using assms(2) c False by (simp add: moveDown_def)
    ultimately show ?thesis by simp
  next
    case True
    have sh: "board_shape (grid s)" and w: "within_board (px f) (py f) (piece f)"
      and cr: "0 \<le> colorIndex f" "colorIndex f \<le> 7"
      using v p by (simp_all add: valid_board_def piece_ok_def)
    from lock_merged[OF sh w, of "colorIndex f"]
    obtain g' where lock: "lock_rows (grid s) (colorIndex f) (px f) (py f) 0 (piece f) = Inr g'"
      and m: "merged (grid s) (colorIndex f)
              (\<lambda>p q. \<exists>i j. filled (piece f) i j \<and> p = px f + int j \<and> q = py f + int i) g'"
      by blast
    have v': "valid_board g'"
      by (rule merged_valid[OF v cr m])
    show ?thesis
      using assms(2) c True lock v' by (simp add: moveDown_def state_ok_def)
  qed
qed

lemma moveDown_state_ok:
  assumes "state_ok s" "moveDown s = Inr s'"
  shows "state_ok s'"
proof (cases "fallingPieceObj s")
  case None
  then show ?thesis using assms(2) by (simp add: moveDown_def)
next
  case (Some f)
  from moveDown_cases[OF assms(1) Some] assms(2) show ?thesis by auto
qed

lemma moveLeft_state_ok:
  assumes "state_ok s" "moveLeft s = Inr s'"
  shows "state_ok s'"
proof (cases "fallingPieceObj s")
  case None
  then show ?thesis using assms by (simp add: moveLeft_def)
next
  case (Some f)
  have v: "valid_board (grid s)" and p: "piece_ok f"
    using assms(1) Some by (simp_all add: state_ok_Some)
  obtain hit where c: "collision (grid s) (px f - 1) (py f) (piece f) = Inr hit"
    by (simp add: collision_valid[OF v])
  show ?thesis
  proof (cases hit)
    case True
    then show ?thesis using assms Some c by (simp add: moveLeft_def)
  next
    case False
    have "within_board (px f - 1) (py f) (piece f)"
      using free_within_board[OF v] c False by simp
    then show ?thesis
      using assms(2) Some c False v p by (auto simp: moveLeft_def state_ok_def piece_ok_def)
  qed
qed

lemma moveRight_state_ok:
  assumes "state_ok s" "moveRight s = Inr s'"
  shows "state_ok s'"
proof (cases "fallingPieceObj s")
  case None
  then show ?thesis using assms by (simp add: moveRight_def)
next
  case (Some f)
  have v: "valid_board (grid s)" and p: "piece_ok f"
    using assms(1) Some by (simp_all add: state_ok_Some)
  obtain hit where c: "collision (grid s) (px f + 1) (py f) (piece f) = Inr hit"
    by (simp add: collision_valid[OF v])
  show ?thesis
  proof (cases hit)
    case True
    then show ?thesis using assms Some c by (simp add: moveRight_def)
  next
    case False
    have "within_board (px f + 1) (py f) (piece f)"
      using free_within_board[OF v] c False by simp
    then show ?thesis
      using assms(2) Some c False v p by (auto simp: moveRight_def state_ok_def piece_ok_def)
  qed
qed

lemma rotate_state_ok:
  assumes "state_ok s" "rotate_piece s = Inr s'"
  shows "state_ok s'"
proof (cases "fallingPieceObj s")
  case None
  then show ?thesis using assms by (simp add: rotate_piece_def)
next
  case (Some f)
  have v: "valid_board (grid s)" and p: "piece_ok f"
    using assms(1) Some by (simp_all add: state_ok_Some)
  from assms(2) Some obtain r where r: "rotatedPiece (piece f) = Inr r"
    by (auto simp: rotate_piece_def split: sum.splits)
  obtain hit where c: "collision (grid s) (px f) (py f) r = Inr hit"
    by (simp add: collision_valid[OF v])
  show ?thesis
  proof (cases hit)
    case True
    then show ?thesis using assms Some r c by (simp add: rotate_piece_def)
  next
    case False
    have "within_board (px f) (py f) r"
      using free_within_board[OF v] c False by simp
    then show ?thesis
      using assms(2) Some r c False v p by (auto simp: rotate_piece_def state_ok_def piece_ok_def)
  qed
qed

lemma spawned_piece_ok:
  assumes "rnd < 7"
  shows "piece_ok (randomPieceObject rnd)"
proof -
  have "list_all (\<lambda>r. piece_ok (randomPieceObject r)) [0..<7]"
    by code_simp
  then show ?thesis
    using assms by (simp add: list_all_iff)
qed

lemma checkGrid_state_ok:
  assumes "state_ok s"
  shows "state_ok (checkGrid s)"
  using assms by (auto simp: state_ok_def checkGrid_fields passGrid_valid split: option.splits)

lemma newGameState_cases:
  assumes "state_ok s" "rnd < 7"
  shows "\<exists>s'. newGameState rnd s = Inr s' \<and> state_ok s'"
proof -
  define s2 where "s2 = (if fallingPieceObj (checkGrid s) = None
                then (checkGrid s)\<lparr>fallingPieceObj := Some (randomPieceObject rnd)\<rparr>
                else checkGrid s)"
  have ok: "state_ok s2"
    using checkGrid_state_ok[OF assms(1)] spawned_piece_ok[OF assms(2)]
    by (auto simp: s2_def state_ok_def)
  have "fallingPieceObj s2 \<noteq> None"
    by (simp add: s2_def)
  then obtain f where "fallingPieceObj s2 = Some f"
    by blast
  from moveDown_cases[OF ok this] show ?thesis
    by (simp add: newGameState_def s2_def Let_def)
qed

lemma tick_cases:
  assumes "state_ok s" "rnd < 7"
  shows "\<exists>s'. tick rnd s = Inr s' \<and> state_ok s'"
  using assms newGameState_cases[OF assms] by (simp add: tick_def)

lemma keydown_state_ok:
  assumes "state_ok s" "keydown k s = Inr s'"
  shows "state_ok s'"
proof (cases "isGameRunning s")
  case False
  then show ?thesis
    using assms by (simp add: keydown_def)
next
  case True
  show ?thesis
  proof (cases k)
    case ArrowDown
    then have "moveDown s = Inr s'" using assms(2) True by (simp add: keydown_def)
    then show ?thesis by (rule moveDown_state_ok[OF assms(1)])
  next
    case ArrowLeft
    then have "moveLeft s = Inr s'" using assms(2) True by (simp add: keydown_def)
    then show ?thesis by (rule moveLeft_state_ok[OF assms(1)])
  next
    case ArrowRight
    then have "moveRight s = Inr s'" using assms(2) True by (simp add: keydown_def)
    then show ?thesis by (rule moveRight_state_ok[OF assms(1)])
  next
    case ArrowUp
    then have "rotate_piece s = Inr s'" using assms(2) True by (simp add: keydown_def)
    then show ?thesis by (rule rotate_state_ok[OF assms(1)])
  next
    case OtherKey
    then show ?thesis using assms True by (simp add: keydown_def)
  qed
qed

lemma restartGame_state_ok: "state_ok (restartGame s)"
  by (simp add: restartGame_def startGame_def state_ok_def valid_generateGrid)

lemma loaded_state_ok: "state_ok loaded"
  by (simp add: loaded_def startGame_def state_ok_def valid_generateGrid)

text \<open>Every reachable state is well-formed.\<close>

lemma reachable_state_ok: "reachable s \<Longrightarrow> state_ok s"
proof (induction rule: reachable.induct)
  case start
  show ?case by (rule loaded_state_ok)
next
  case (timer s rnd s')
  then show ?case
    using tick_cases[of s rnd] by auto
next
  case (key s k s')
  then show ?case by (auto intro: keydown_state_ok)
next
  case (restart s)
  show ?case by (rule restartGame_state_ok)
qed

text \<open>
  Claim C9: the board is 20 rows of 10 cells, each a number from 0 to 7, after
  \<open>generateGrid\<close> and after \<open>restartGame\<close>; \<open>checkGrid\<close> keeps it so; and so does
  \<open>moveDown\<close> in every well-formed state, where the fill-code of the piece is from 1 to 7
  and its filled cells lie on the board, as they do in every reachable state. There
  \<open>moveDown\<close> also never throws when a piece is present.
\<close>

theorem board_invariant:
  "valid_board generateGrid \<and>
   valid_board (grid (restartGame s)) \<and>
   (valid_board (grid s) \<longrightarrow> valid_board (grid (checkGrid s))) \<and>
   (state_ok s \<and> moveDown s = Inr s' \<longrightarrow> valid_board (grid s')) \<and>
   (state_ok s \<and> fallingPieceObj s \<noteq> None \<longrightarrow> (\<exists>t. moveDown s = Inr t \<and> valid_board (grid t)))"
proof (intro conjI impI)
  show "valid_board generateGrid"
    by (rule valid_generateGrid)
  show "valid_board (grid (restartGame s))"
    using restartGame_state_ok[of s] by (simp add: state_ok_def)
  show "valid_board (grid (checkGrid s))" if "valid_board (grid s)"
    using that by (simp add: checkGrid_fields passGrid_valid)
  show "valid_board (grid s')" if "state_ok s \<and> moveDown s = Inr s'"
    using that moveDown_state_ok[of s s'] by (simp add: state_ok_def)
  show "\<exists>t. moveDown s = Inr t \<and> valid_board (grid t)"
    if h: "state_ok s \<and> fallingPieceObj s \<noteq> None"
  proof -
    from h obtain f where f: "fallingPieceObj s = Some f"
      by blast
    from h have "state_ok s"
      by simp
    from moveDown_cases[OF this f] obtain t where "moveDown s = Inr t" "state_ok t"
      by blast
    then show ?thesis
      by (auto simp: state_ok_def)
  qed
qed

theorem board_invariant_witness:
  "state_ok O_on_full_stack \<and> fallingPieceObj O_on_full_stack \<noteq> None \<and>
   valid_board (grid (checkGrid O_on_full_stack)) \<and>
   (\<exists>t. moveDown O_on_full_stack = Inr t \<and> valid_board (grid t))"
proof -
  have ok: "state_ok O_on_full_stack"
    by code_simp
  have p: "fallingPieceObj O_on_full_stack \<noteq> None"
    by (simp add: O_on_full_stack_def)
  have v: "valid_board (grid O_on_full_stack)"
    using ok by (simp add: state_ok_def)
  show ?thesis
    using board_invariant[of O_on_full_stack O_on_full_stack] ok p v by simp
qed

section \<open>The O-shape falling on the empty board\<close>

lemma repeatedly_Suc_last:
  "repeatedly (Suc n) h s = (case repeatedly n h s of Inl e \<Rightarrow> Inl e | Inr s' \<Rightarrow> h s')"
proof (induction n arbitrary: s)
  case 0
  show ?case by (cases "h s") simp_all
next
  case (Suc n)
  show ?case
  proof (cases "h s")
    case (Inl e)
    then show ?thesis by simp
  next
    case (Inr s1)
    have "repeatedly (Suc (Suc n)) h s = repeatedly (Suc n) h s1"
      using Inr by simp
    also have "\<dots> = (case repeatedly n h s1 of Inl e \<Rightarrow> Inl e | Inr s' \<Rightarrow> h s')"
      by (rule Suc.IH)
    also have "\<dots> = (case repeatedly (Suc n) h s of Inl e \<Rightarrow> Inl e | Inr s' \<Rightarrow> h s')"
      using Inr by simp
    finally show ?thesis .
  qed
qed

lemma O_piece: "randomPieceObject 6 = \<lparr>piece = [[Num 1, Num 1], [Num 1, Num 1]], colorIndex = 7, px = 4, py = 0\<rparr>"
  by (simp add: randomPieceObject_def SHAPES_def nums_def)

lemma O_free:
  assumes "0 \<le> y" "y \<le> 18"
  shows "collision generateGrid 4 y [[Num 1, Num 1], [Num 1, Num 1]] = Inr False"
proof -
  have "\<not> blocked generateGrid p q" if "0 \<le> p" "p < 10" "0 \<le> q" "q < 20" for p q
  proof -
    have "nat q < 20" "nat p < 10" using that by simp_all
    then have "generateGrid ! nat q ! nat p = Num 0"
      by (simp add: generateGrid_def ROWS_def COLS_def)
    then show ?thesis
      using that by (simp add: blocked_def in_board_def occupied_def ROWS_def COLS_def)
  qed
  then have "\<not> blocked generateGrid (4 + int j) (y + int i)" if "i < 2" "j < 2" for i j
    using that assms by simp
  moreover have "i < 2 \<and> j < 2" if "filled [[Num 1, Num 1], [Num 1, Num 1]] i j" for i j
    using that by (auto simp: filled_def less_Suc_eq_0_disj nth_Cons split: nat.splits)
  ultimately show ?thesis
    unfolding collision_valid[OF valid_generateGrid] by blast
qed

lemma O_floor: "collision generateGrid 4 19 [[Num 1, Num 1], [Num 1, Num 1]] = Inr True"
  by code_simp

lemma O_lock: "lock_rows generateGrid 7 4 18 0 [[Num 1, Num 1], [Num 1, Num 1]] = Inr O_locked_grid"
  by code_simp

lemma O_descends:
  assumes "grid s = generateGrid"
  shows "k + n \<le> 18 \<Longrightarrow>
    repeatedly n moveDown (s\<lparr>fallingPieceObj := Some ((randomPieceObject 6)\<lparr>py := int k\<rparr>)\<rparr>) =
      Inr (s\<lparr>fallingPieceObj := Some ((randomPieceObject 6)\<lparr>py := int (k + n)\<rparr>)\<rparr>)"
proof (induction n arbitrary: k)
  case 0
  show ?case by simp
next
  case (Suc n)
  have "collision generateGrid 4 (int k + 1) [[Num 1, Num 1], [Num 1, Num 1]] = Inr False"
    using Suc.prems by (intro O_free) simp_all
  then have step: "moveDown (s\<lparr>fallingPieceObj := Some ((randomPieceObject 6)\<lparr>py := int k\<rparr>)\<rparr>) =
      Inr (s\<lparr>fallingPieceObj := Some ((randomPieceObject 6)\<lparr>py := int (Suc k)\<rparr>)\<rparr>)"
    using assms by (simp add: moveDown_def O_piece add.commute)
  show ?case
    using Suc.IH[of "Suc k"] Suc.prems by (simp add: step)
qed

lemma O_locks:
  assumes "grid s = generateGrid"
  shows "moveDown (s\<lparr>fallingPieceObj := Some ((randomPieceObject 6)\<lparr>py := 18\<rparr>)\<rparr>) =
           Inr (s\<lparr>grid := O_locked_grid, fallingPieceObj := None\<rparr>)"
  using assms by (simp add: moveDown_def O_piece O_floor O_lock del: lock_rows.simps)

text \<open>
  Claim C2, amended: for the O-shape spawned at horizontal offset 4 and vertical offset 0
  on the empty board, each of the first 18 calls of \<open>moveDown\<close> moves it one row down
  without locking, which brings its vertical offset to 18, where its two rows stand in
  board rows 18 and 19; the 19th call locks it into the board.
\<close>

theorem O_shape_descent:
  assumes "grid s = generateGrid" and "fallingPieceObj s = Some (randomPieceObject 6)"
  shows "(\<forall>n\<le>18. repeatedly n moveDown s =
            Inr (s\<lparr>fallingPieceObj := Some ((randomPieceObject 6)\<lparr>py := int n\<rparr>)\<rparr>)) \<and>
         repeatedly 19 moveDown s = Inr (s\<lparr>grid := O_locked_grid, fallingPieceObj := None\<rparr>)"
proof -
  have s: "s = s\<lparr>fallingPieceObj := Some ((randomPieceObject 6)\<lparr>py := int 0\<rparr>)\<rparr>"
    using assms(2) by (simp add: O_piece)
  have run: "repeatedly n moveDown s =
            Inr (s\<lparr>fallingPieceObj := Some ((randomPieceObject 6)\<lparr>py := int n\<rparr>)\<rparr>)"
    if "n \<le> 18" for n
    using O_descends[OF assms(1), of 0 n] that s by simp
  have "repeatedly (Suc 18) moveDown s =
          Inr (s\<lparr>grid := O_locked_grid, fallingPieceObj := None\<rparr>)"
    unfolding repeatedly_Suc_last using run[of 18] O_locks[OF assms(1)] by simp
  then show ?thesis
    using run by simp
qed

theorem O_shape_descent_witness:
  "grid O_spawned = generateGrid \<and> fallingPieceObj O_spawned = Some (randomPieceObject 6) \<and>
   randomPieceObject 6 =
     \<lparr>piece = [[Num 1, Num 1], [Num 1, Num 1]], colorIndex = 7, px = 4, py = 0\<rparr> \<and>
   repeatedly 18 moveDown O_spawned =
     Inr (O_spawned\<lparr>fallingPieceObj := Some ((randomPieceObject 6)\<lparr>py := 18\<rparr>)\<rparr>) \<and>
   repeatedly 19 moveDown O_spawned = Inr after_first_lock"
proof -
  have g: "grid O_spawned = generateGrid"
    by (simp add: O_spawned_def loaded_def startGame_def)
  have f: "fallingPieceObj O_spawned = Some (randomPieceObject 6)"
    by (simp add: O_spawned_def)
  have a: "O_spawned\<lparr>grid := O_locked_grid, fallingPieceObj := None\<rparr> = after_first_lock"
    by (simp add: O_spawned_def after_first_lock_def loaded_def startGame_def)
  show ?thesis
    using O_shape_descent[OF g f] g f a O_piece by simp
qed

text \<open>
  Claim C2, as stated, has the piece at vertical offset 19 after 19 calls and locked by the
  20th. After 19 calls the piece is already locked and absent, and the 20th call throws.
\<close>

theorem O_shape_locked_by_19th_call:
  "\<not> (\<exists>s' f. repeatedly 19 moveDown O_spawned = Inr s' \<and>
              fallingPieceObj s' = Some f \<and> py f = 19) \<and>
   repeatedly 19 moveDown O_spawned = Inr after_first_lock \<and>
   fallingPieceObj after_first_lock = None \<and>
   repeatedly 20 moveDown O_spawned = Inl TypeError"
proof -
  have a: "repeatedly 19 moveDown O_spawned = Inr after_first_lock"
    by code_simp
  have b: "fallingPieceObj after_first_lock = None"
    by code_simp
  have c: "repeatedly 20 moveDown O_spawned = Inl TypeError"
    by code_simp
  show ?thesis
    using a b c by auto
qed

section \<open>The key handler without a falling piece\<close>

lemma reachable_ticks:
  assumes "rnd < 7"
  shows "reachable s \<Longrightarrow> repeatedly n (tick rnd) s = Inr s' \<Longrightarrow> reachable s'"
proof (induction n arbitrary: s)
  case 0
  then show ?case by simp
next
  case (Suc n)
  from Suc.prems(2) obtain s1 where s1: "tick rnd s = Inr s1" "repeatedly n (tick rnd) s1 = Inr s'"
    by (auto split: sum.splits)
  have "reachable s1"
    by (rule reachable.timer[OF Suc.prems(1) assms s1(1)])
  then show ?case
    by (rule Suc.IH[OF _ s1(2)])
qed

text \<open>
  Claim C10: the state reached from the loaded script by 19 ticks that spawn and drop the
  O-shape is reachable, has the game running and no falling piece (the piece was locked
  at vertical offset 18, so the game is not over). In it the handler of the down key
  throws a \<open>TypeError\<close>, since \<open>moveDown\<close> reads the absent piece, whereas the handlers
  of the left, right and up keys return the state unchanged.
\<close>

theorem moveDown_faults_without_piece:
  "repeatedly 19 (tick 6) loaded = Inr after_first_lock \<and>
   reachable after_first_lock \<and>
   isGameRunning after_first_lock \<and> gameInterval after_first_lock \<and>
   fallingPieceObj after_first_lock = None \<and>
   keydown ArrowDown after_first_lock = Inl TypeError \<and>
   keydown ArrowLeft after_first_lock = Inr after_first_lock \<and>
   keydown ArrowRight after_first_lock = Inr after_first_lock \<and>
   keydown ArrowUp after_first_lock = Inr after_first_lock"
proof -
  have run: "repeatedly 19 (tick 6) loaded = Inr after_first_lock"
    by code_simp
  have r: "reachable after_first_lock"
    by (rule reachable_ticks[OF _ reachable.start run]) simp
  have rest: "isGameRunning after_first_lock" "gameInterval after_first_lock"
    "fallingPieceObj after_first_lock = None"
    "keydown ArrowDown after_first_lock = Inl TypeError"
    "keydown ArrowLeft after_first_lock = Inr after_first_lock"
    "keydown ArrowRight after_first_lock = Inr after_first_lock"
    "keydown ArrowUp after_first_lock = Inr after_first_lock"
    by code_simp+
  show ?thesis
    using run r rest by simp
qed

end
